theory Spec2Isabelle
  imports Complex_Main
begin

section \<open>Plot builders of bluesky-widgets: a shallow embedding\<close>

text \<open>
  The theory embeds \<^verbatim>\<open>bluesky_widgets/models/plot_builders.py\<close>: the array transforms
  of \<^verbatim>\<open>Image\<close> and \<^verbatim>\<open>RasteredImage\<close>, the orientation properties of
  \<^verbatim>\<open>RasteredImage\<close>, and the run bookkeeping of \<^verbatim>\<open>RecentLines\<close>.
  Python exceptions are values of \<open>error\<close>. An operation that mutates an object and may
  raise returns the object as it is when the operation ends together with the exception,
  if any: what was assigned before a \<^verbatim>\<open>raise\<close> stays assigned.
\<close>

datatype error = ValueError | KeyError | IndexError | TypeError

subsection \<open>Image: the middle-slice collapse\<close>

text \<open>
  A numpy array is its shape and its elements in row-major order. \<open>index0 a k\<close> is
  \<^verbatim>\<open>a[k]\<close> for a non-negative \<open>k\<close>: the \<open>k\<close>-th block along the leading axis,
  IndexError when \<open>k\<close> is not below the leading dimension or the array has no axis.
\<close>

record 'a ndarray =
  nd_shape :: "nat list"
  nd_data :: "'a list"

definition ndim :: "'a ndarray \<Rightarrow> nat" where
  "ndim a = length (nd_shape a)"

definition index0 :: "'a ndarray \<Rightarrow> nat \<Rightarrow> error + 'a ndarray" where
  "index0 a k =
     (case nd_shape a of
        [] \<Rightarrow> Inl IndexError
      | n # rest \<Rightarrow>
          if k < n
          then Inr \<lparr>nd_shape = rest,
                    nd_data = take (prod_list rest) (drop (k * prod_list rest) (nd_data a))\<rparr>
          else Inl IndexError)"

lemma index0_ndim: "index0 a k = Inr b \<Longrightarrow> ndim b < ndim a"
  by (auto simp: index0_def ndim_def split: list.splits if_splits)

text \<open>
  \<^verbatim>\<open>Image._transform\<close>, after the field has been evaluated to an array:
  \<^verbatim>\<open>while data.ndim > 2: middle = data.shape[0] // 2; data = data[middle]\<close>.
\<close>

function Image_transform :: "'a ndarray \<Rightarrow> error + 'a ndarray" where
  "Image_transform a =
     (if 2 < ndim a
      then (case index0 a (hd (nd_shape a) div 2) of
              Inl e \<Rightarrow> Inl e
            | Inr b \<Rightarrow> Image_transform b)
      else Inr a)"
  by pat_completeness auto
termination
  by (relation "measure ndim") (auto dest: index0_ndim)

declare Image_transform.simps [simp del]

text \<open>
  The spec's wording of the collapse, for comparison with the loop: the indices are the
  floors of half of the leading dimensions of the input, all but the last two, and the
  slices are taken one after the other.
\<close>

fun take_slices :: "nat list \<Rightarrow> 'a ndarray \<Rightarrow> error + 'a ndarray" where
  "take_slices [] a = Inr a"
| "take_slices (k # ks) a =
     (case index0 a k of Inl e \<Rightarrow> Inl e | Inr b \<Rightarrow> take_slices ks b)"

definition middle_indices :: "'a ndarray \<Rightarrow> nat list" where
  "middle_indices a = map (\<lambda>n. n div 2) (take (ndim a - 2) (nd_shape a))"

subsection \<open>RasteredImage: raster reconstruction\<close>

text \<open>
  The grid is a list of rows; \<open>None\<close> is the NaN that \<^verbatim>\<open>numpy.ones(shape) * numpy.nan\<close>
  fills it with. \<open>unravel_index\<close> is \<^verbatim>\<open>numpy.unravel_index\<close> for a two-dimensional
  shape in C order; it raises ValueError for an index that is not below the size.
\<close>

type_synonym 'a grid = "'a option list list"

definition nan_grid :: "nat \<times> nat \<Rightarrow> 'a grid" where
  "nan_grid shp = replicate (fst shp) (replicate (snd shp) None)"

definition unravel_index :: "nat \<Rightarrow> nat \<times> nat \<Rightarrow> error + nat \<times> nat" where
  "unravel_index i shp =
     (if i < fst shp * snd shp then Inr (i div snd shp, i mod snd shp) else Inl ValueError)"

definition grid_set :: "'a grid \<Rightarrow> nat \<times> nat \<Rightarrow> 'a \<Rightarrow> 'a grid" where
  "grid_set g pos v = g[fst pos := (g ! fst pos)[snd pos := Some v]]"

text \<open>
  The body of the loop \<^verbatim>\<open>for i in range(len(data))\<close> of
  \<^verbatim>\<open>RasteredImage._transform\<close>, run over the list of indices.
\<close>

fun raster_loop ::
  "nat \<times> nat \<Rightarrow> bool \<times> bool \<Rightarrow> 'a list \<Rightarrow> nat list \<Rightarrow> 'a grid \<Rightarrow> error + 'a grid" where
  "raster_loop shp snaking dat [] g = Inr g"
| "raster_loop shp snaking dat (i # is) g =
     (case unravel_index i shp of
        Inl e \<Rightarrow> Inl e
      | Inr pos \<Rightarrow>
          let pos' = (if snd snaking \<and> fst pos mod 2 \<noteq> 0
                      then (fst pos, snd shp - snd pos - 1) else pos)
          in raster_loop shp snaking dat is (grid_set g pos' (dat ! i)))"

definition Rastered_transform ::
  "nat \<times> nat \<Rightarrow> bool \<times> bool \<Rightarrow> 'a list \<Rightarrow> error + 'a grid" where
  "Rastered_transform shp snaking dat =
     raster_loop shp snaking dat [0..<length dat] (nan_grid shp)"

subsection \<open>RasteredImage: orientation properties\<close>

text \<open>
  The part of a \<^verbatim>\<open>RasteredImage\<close> the orientation properties read and write: the two
  stored orientations and the limits of its axes, \<open>None\<close> for Python's \<^verbatim>\<open>None\<close>.
\<close>

text \<open>
  A limit is a Python number: a finite number, one of the two infinities, or the float
  NaN. The properties only compare limits and swap them, so a finite number is taken
  as the real it stands for. \<open>py_gt\<close>, \<open>py_ge\<close> and \<open>py_ne\<close> are Python's
  \<^verbatim>\<open>>\<close>, \<^verbatim>\<open>>=\<close> and \<^verbatim>\<open>!=\<close>: with a NaN on either side \<^verbatim>\<open>>\<close> and \<^verbatim>\<open>>=\<close> are
  False and \<^verbatim>\<open>!=\<close> is True.
\<close>

datatype pyfloat = Num real | PosInf | NegInf | NaN

fun py_gt :: "pyfloat \<Rightarrow> pyfloat \<Rightarrow> bool" where
  "py_gt NaN _ = False"
| "py_gt _ NaN = False"
| "py_gt (Num x) (Num y) = (x > y)"
| "py_gt PosInf PosInf = False"
| "py_gt PosInf _ = True"
| "py_gt _ PosInf = False"
| "py_gt NegInf _ = False"
| "py_gt _ NegInf = True"

definition py_ge :: "pyfloat \<Rightarrow> pyfloat \<Rightarrow> bool" where
  "py_ge a b \<longleftrightarrow> py_gt a b \<or> (a = b \<and> a \<noteq> NaN)"

definition py_ne :: "pyfloat \<Rightarrow> pyfloat \<Rightarrow> bool" where
  "py_ne a b \<longleftrightarrow> \<not> (a = b \<and> a \<noteq> NaN)"

record rastered_image =
  stored_x_positive :: string
  stored_y_positive :: string
  x_limits :: "(pyfloat \<times> pyfloat) option"
  y_limits :: "(pyfloat \<times> pyfloat) option"

definition get_x_positive :: "rastered_image \<Rightarrow> rastered_image \<times> (error + string)" where
  "get_x_positive s =
     (case x_limits s of
        None \<Rightarrow> (s, Inl TypeError)
      | Some (xmin, xmax) \<Rightarrow>
          if py_gt xmin xmax
          then (s\<lparr>stored_x_positive := ''left''\<rparr>, Inr ''left'')
          else (s\<lparr>stored_x_positive := ''right''\<rparr>, Inr ''right''))"

definition set_x_positive :: "string \<Rightarrow> rastered_image \<Rightarrow> rastered_image \<times> error option" where
  "set_x_positive v s =
     (if v \<notin> set [''right'', ''left''] then (s, Some ValueError)
      else
        let s1 = s\<lparr>stored_x_positive := v\<rparr> in
        case x_limits s1 of
          None \<Rightarrow> (s1, Some TypeError)
        | Some (xmin, xmax) \<Rightarrow>
            if (py_gt xmin xmax \<and> stored_x_positive s1 = ''right'')
               \<or> (py_gt xmax xmin \<and> stored_x_positive s1 = ''left'')
            then (s1\<lparr>x_limits := Some (xmax, xmin)\<rparr>, None)
            else if (py_ge xmax xmin \<and> stored_x_positive s1 = ''right'')
                    \<or> (py_ge xmin xmax \<and> stored_x_positive s1 = ''left'')
            then (s1\<lparr>x_limits := Some (xmin, xmax), stored_x_positive := v\<rparr>, None)
            else (s1, None))"

definition get_y_positive :: "rastered_image \<Rightarrow> rastered_image \<times> (error + string)" where
  "get_y_positive s =
     (case y_limits s of
        None \<Rightarrow> (s, Inl TypeError)
      | Some (ymin, ymax) \<Rightarrow>
          if py_gt ymin ymax
          then (s\<lparr>stored_y_positive := ''down''\<rparr>, Inr ''down'')
          else (s\<lparr>stored_y_positive := ''up''\<rparr>, Inr ''up''))"

definition set_y_positive :: "string \<Rightarrow> rastered_image \<Rightarrow> rastered_image \<times> error option" where
  "set_y_positive v s =
     (if v \<notin> set [''up'', ''down''] then (s, Some ValueError)
      else
        let s1 = s\<lparr>stored_y_positive := v\<rparr> in
        case y_limits s1 of
          None \<Rightarrow> (s1, Some TypeError)
        | Some (ymin, ymax) \<Rightarrow>
            if (py_gt ymin ymax \<and> stored_y_positive s1 = ''up'')
               \<or> (py_gt ymax ymin \<and> stored_y_positive s1 = ''down'')
            then (s1\<lparr>y_limits := Some (ymax, ymin)\<rparr>, None)
            else if (py_ge ymax ymin \<and> stored_y_positive s1 = ''up'')
                    \<or> (py_ge ymin ymax \<and> stored_y_positive s1 = ''down'')
            then (s1\<lparr>y_limits := Some (ymin, ymax), stored_y_positive := v\<rparr>, None)
            else (s1, None))"


subsection \<open>RecentLines: data\<close>

text \<open>
  A run is an external object. The controller reads its identity, with which
  \<^verbatim>\<open>run in self.runs\<close> and \<^verbatim>\<open>self.runs.remove(run)\<close> compare, and its
  \<^verbatim>\<open>metadata["start"]["uid"]\<close>. What changes during the life of a run, the names of
  its streams (\<^verbatim>\<open>list(run)\<close>) and whether it is live and not completed, is read at
  the moment of a call, and is an argument of the operation that reads it.
\<close>

record run =
  ident :: nat
  uid :: string

text \<open>
  A \<^verbatim>\<open>LineSpec\<close>: its uuid, its run, the y expression its function plots, its label
  and the two keys of its style that the controller writes.
\<close>

record line_spec =
  uuid :: nat
  line_run :: run
  line_y :: string
  label :: string
  color :: string
  linestyle :: "string option"

text \<open>
  The controller. \<open>color_cycle\<close> is the number of colours drawn so far from
  \<^verbatim>\<open>itertools.cycle(f"C{i}" for i in range(10))\<close>. \<open>runs_to_lines\<close> is the
  \<^verbatim>\<open>defaultdict(set)\<close> from uids to the uuids of lines; a set of uuids is kept as a
  list without repetition, in the order of insertion, which is the order the model
  iterates in (Python fixes no order). \<open>next_uuid\<close> supplies the
  uuid of the next \<^verbatim>\<open>LineSpec\<close>. \<open>new_stream_subs\<close> and \<open>completed_subs\<close>
  are the runs on whose \<^verbatim>\<open>new_stream\<close> and \<^verbatim>\<open>completed\<close> events the handlers of
  this controller are connected.
\<close>

record recent_lines =
  max_runs :: int
  x_expr :: string
  ys :: "string list"
  label_maker :: "run \<Rightarrow> string \<Rightarrow> string"
  needs_streams :: "string list"
  runs :: "run list"
  pinned :: "string set"
  color_cycle :: nat
  runs_to_lines :: "string \<rightharpoonup> nat list"
  axes_lines :: "line_spec list"
  next_uuid :: nat
  new_stream_subs :: "run set"
  completed_subs :: "run set"

definition palette :: "string list" where
  "palette = [''C0'', ''C1'', ''C2'', ''C3'', ''C4'', ''C5'', ''C6'', ''C7'', ''C8'', ''C9'']"

definition next_color :: "nat \<Rightarrow> string" where
  "next_color n = palette ! (n mod 10)"

text \<open>
  \<^verbatim>\<open>RecentLines.__init__\<close>. The argument \<^verbatim>\<open>ys\<close> is a string or a list of strings;
  \<^verbatim>\<open>max_runs\<close> is an integer. The label maker is taken as given: the default one is
  built from \<^verbatim>\<open>auto_label\<close> of the module \<^verbatim>\<open>utils\<close>, which is not embedded here.
\<close>

datatype ys_arg = YsStr string | YsList "string list"

definition new_RecentLines ::
  "int \<Rightarrow> string \<Rightarrow> string list \<Rightarrow> (run \<Rightarrow> string \<Rightarrow> string) \<Rightarrow> string list
     \<Rightarrow> recent_lines" where
  "new_RecentLines m x l lm needs =
     \<lparr>max_runs = m, x_expr = x, ys = l, label_maker = lm, needs_streams = needs,
      runs = [], pinned = {}, color_cycle = 0, runs_to_lines = Map.empty,
      axes_lines = [], next_uuid = 0, new_stream_subs = {}, completed_subs = {}\<rparr>"

definition RecentLines_init ::
  "int \<Rightarrow> string \<Rightarrow> ys_arg \<Rightarrow> (run \<Rightarrow> string \<Rightarrow> string) \<Rightarrow> string list
     \<Rightarrow> error + recent_lines" where
  "RecentLines_init m x ys_in lm needs =
     (case ys_in of
        YsStr _ \<Rightarrow> Inl ValueError
      | YsList l \<Rightarrow> Inr (new_RecentLines m x l lm needs))"

subsection \<open>RecentLines: the event sources\<close>

text \<open>
  The classes \<^verbatim>\<open>RunList\<close>, \<^verbatim>\<open>AxesSpec\<close>, \<^verbatim>\<open>LineSpec\<close> and the event emitters
  are imported by \<^verbatim>\<open>plot_builders.py\<close> from modules that are not embedded here. What
  the controller uses of them follows the spec: the registry is an ordered sequence
  with append, removal by identity, membership, indexing and length, which notifies its
  handlers synchronously after the list has changed; a handler is subscribed and
  unsubscribed by its identity, so that connecting twice is connecting once; the axes
  hold an ordered collection of lines with a lookup by uuid. A handler is called as a
  function is: an exception it raises ends the operation that emitted the event, and
  what was changed until then stays changed.
\<close>

text \<open>
  Modelled from the spec: the lookup \<^verbatim>\<open>self.axes.by_uuid[line_uuid]\<close> of
  \<^verbatim>\<open>AxesSpec\<close>, a KeyError of which makes the caller pass the uuid over, followed by
  \<^verbatim>\<open>self.axes.lines.remove(line)\<close>.
\<close>

definition remove_line :: "nat \<Rightarrow> line_spec list \<Rightarrow> line_spec list" where
  "remove_line u ls =
     (case find (\<lambda>l. uuid l = u) ls of None \<Rightarrow> ls | Some l \<Rightarrow> remove1 l ls)"

text \<open>
  Modelled from the spec: \<^verbatim>\<open>line.style.update({"color": c})\<close> of \<^verbatim>\<open>LineSpec\<close>, on
  the line that the lookup by uuid has found.
\<close>

fun set_color :: "nat \<Rightarrow> string \<Rightarrow> line_spec list \<Rightarrow> line_spec list" where
  "set_color u c [] = []"
| "set_color u c (l # ls) =
     (if uuid l = u then l\<lparr>color := c\<rparr> # ls else l # set_color u c ls)"

subsection \<open>RecentLines: removal and eviction\<close>

text \<open>
  \<^verbatim>\<open>_on_run_removed\<close>: \<^verbatim>\<open>self._pinned.discard(run_uid)\<close>, then
  \<^verbatim>\<open>self._runs_to_lines.pop(run_uid)\<close>, which raises KeyError for a key that is not
  in the dictionary (the default factory serves \<^verbatim>\<open>__getitem__\<close> only), then the
  removal of each line that the axes still hold.
\<close>

definition on_run_removed :: "run \<Rightarrow> recent_lines \<Rightarrow> recent_lines \<times> error option" where
  "on_run_removed r st =
     (let st1 = st\<lparr>pinned := pinned st - {uid r}\<rparr> in
      case runs_to_lines st1 (uid r) of
        None \<Rightarrow> (st1, Some KeyError)
      | Some us \<Rightarrow>
          (st1\<lparr>runs_to_lines := (runs_to_lines st1)(uid r := None),
               axes_lines := fold remove_line us (axes_lines st1)\<rparr>, None))"

text \<open>
  Modelled from the spec: \<^verbatim>\<open>self.runs.pop(i)\<close> of \<^verbatim>\<open>RunList\<close> for \<open>i \<ge> 0\<close>. The
  list loses its entry, then the handler of the removal runs.
\<close>

definition runs_pop :: "nat \<Rightarrow> recent_lines \<Rightarrow> recent_lines \<times> error option" where
  "runs_pop i st =
     (if i < length (runs st)
      then on_run_removed (runs st ! i) (st\<lparr>runs := take i (runs st) @ drop (Suc i) (runs st)\<rparr>)
      else (st, Some IndexError))"

text \<open>
  The inner loop of \<^verbatim>\<open>_cull_runs\<close>:
  \<^verbatim>\<open>while self.runs[i].metadata["start"]["uid"] in self._pinned: i += 1\<close>.
  Reading \<^verbatim>\<open>self.runs[i]\<close> past the end raises IndexError.
\<close>

function skip_pinned :: "recent_lines \<Rightarrow> nat \<Rightarrow> error + nat" where
  "skip_pinned st i =
     (if length (runs st) \<le> i then Inl IndexError
      else if uid (runs st ! i) \<in> pinned st then skip_pinned st (Suc i)
      else Inr i)"
  by pat_completeness auto
termination
  by (relation "measure (\<lambda>(st, i). length (runs st) - i)") auto

declare skip_pinned.simps [simp del]

lemma skip_pinned_bound: "skip_pinned st i = Inr j \<Longrightarrow> j < length (runs st)"
  by (induction st i rule: skip_pinned.induct)
     (subst (asm) skip_pinned.simps, auto split: if_splits)

lemma on_run_removed_runs: "runs (fst (on_run_removed r st)) = runs st"
  by (simp add: on_run_removed_def Let_def split: option.splits)

lemma runs_pop_length:
  "runs_pop j st = (st1, e) \<Longrightarrow> j < length (runs st) \<Longrightarrow> length (runs st1) < length (runs st)"
  using on_run_removed_runs [of "runs st ! j" "st\<lparr>runs := take j (runs st) @ drop (Suc j) (runs st)\<rparr>"]
  by (simp add: runs_pop_def)

text \<open>
  The outer loop of \<^verbatim>\<open>_cull_runs\<close>, with the index \<open>i\<close> that it keeps from one
  round to the next:
  \<^verbatim>\<open>while len(self.runs) > self.max_runs + len(self._pinned): ...; self.runs.pop(i)\<close>.
\<close>

function cull_loop :: "nat \<Rightarrow> recent_lines \<Rightarrow> recent_lines \<times> error option" where
  "cull_loop i st =
     (if int (length (runs st)) > max_runs st + int (card (pinned st))
      then (case skip_pinned st i of
              Inl e \<Rightarrow> (st, Some e)
            | Inr j \<Rightarrow>
                (case runs_pop j st of
                   (st1, Some e) \<Rightarrow> (st1, Some e)
                 | (st1, None) \<Rightarrow> cull_loop j st1))
      else (st, None))"
  by pat_completeness auto
termination
  by (relation "measure (\<lambda>(i, st). length (runs st))")
     (auto dest: skip_pinned_bound intro: runs_pop_length [OF sym])

declare cull_loop.simps [simp del]

definition cull_runs :: "recent_lines \<Rightarrow> recent_lines \<times> error option" where
  "cull_runs st = cull_loop 0 st"

subsection \<open>RecentLines: lines\<close>

text \<open>
  One round of the loop \<^verbatim>\<open>for y in self.ys\<close> of \<^verbatim>\<open>_add_lines\<close>; \<open>live\<close> is what
  \<^verbatim>\<open>run_is_live_and_not_completed(run)\<close> returns.
\<close>

definition add_line :: "run \<Rightarrow> bool \<Rightarrow> string \<Rightarrow> recent_lines \<Rightarrow> recent_lines" where
  "add_line r live y st =
     (let lbl = label_maker st r y;
          col = (if live then ''black'' else next_color (color_cycle st));
          st1 = (if live then st\<lparr>completed_subs := insert r (completed_subs st)\<rparr>
                 else st\<lparr>color_cycle := Suc (color_cycle st)\<rparr>);
          pin = (uid r \<in> pinned st1);
          ln = \<lparr>uuid = next_uuid st1, line_run = r, line_y = y,
                label = (if pin then lbl @ '' (pinned)'' else lbl),
                color = col,
                linestyle = (if pin then Some ''dashed'' else None)\<rparr>;
          us = (case runs_to_lines st1 (uid r) of None \<Rightarrow> [] | Some us \<Rightarrow> us)
      in st1\<lparr>next_uuid := Suc (next_uuid st1),
              runs_to_lines :=
                (runs_to_lines st1)(uid r \<mapsto> (if uuid ln \<in> set us then us else us @ [uuid ln])),
              axes_lines := axes_lines st1 @ [ln]\<rparr>)"

text \<open>\<^verbatim>\<open>_add_lines\<close>: the eviction first, then one line for each y expression.\<close>

definition add_lines :: "run \<Rightarrow> bool \<Rightarrow> recent_lines \<Rightarrow> recent_lines \<times> error option" where
  "add_lines r live st =
     (case cull_runs st of
        (st1, Some e) \<Rightarrow> (st1, Some e)
      | (st1, None) \<Rightarrow> (fold (add_line r live) (ys st1) st1, None))"

subsection \<open>RecentLines: handlers and public operations\<close>

text \<open>
  \<^verbatim>\<open>_on_run_added\<close>, the handler of an addition to the registry; \<open>streams\<close> is
  \<^verbatim>\<open>list(run)\<close> at the time of the call. \<open>add_run\<close> pins the uid if asked to and
  appends the run, which calls the handler; \<open>discard_run\<close> removes a run that the
  registry holds, which calls \<^verbatim>\<open>_on_run_removed\<close>. The names of the handlers are the
  source's without the leading underscore.
\<close>

definition on_run_added ::
  "run \<Rightarrow> string list \<Rightarrow> bool \<Rightarrow> recent_lines \<Rightarrow> recent_lines \<times> error option" where
  "on_run_added r streams live st =
     (if set (needs_streams st) \<subseteq> set streams then add_lines r live st
      else (st\<lparr>new_stream_subs := insert r (new_stream_subs st)\<rparr>, None))"

definition add_run ::
  "run \<Rightarrow> bool \<Rightarrow> string list \<Rightarrow> bool \<Rightarrow> recent_lines \<Rightarrow> recent_lines \<times> error option" where
  "add_run r pin streams live st =
     (let st1 = (if pin then st\<lparr>pinned := insert (uid r) (pinned st)\<rparr> else st)
      in on_run_added r streams live (st1\<lparr>runs := runs st1 @ [r]\<rparr>))"

definition discard_run :: "run \<Rightarrow> recent_lines \<Rightarrow> recent_lines \<times> error option" where
  "discard_run r st =
     (if r \<in> set (runs st) then on_run_removed r (st\<lparr>runs := remove1 r (runs st)\<rparr>)
      else (st, None))"

text \<open>
  \<^verbatim>\<open>_on_new_stream\<close>: when the needed streams are there, the lines are added and then
  the handler is disconnected; an exception of \<^verbatim>\<open>_add_lines\<close> leaves it connected.
\<close>

definition on_new_stream ::
  "run \<Rightarrow> string list \<Rightarrow> bool \<Rightarrow> recent_lines \<Rightarrow> recent_lines \<times> error option" where
  "on_new_stream r streams live st =
     (if set (needs_streams st) \<subseteq> set streams
      then (case add_lines r live st of
              (st1, Some e) \<Rightarrow> (st1, Some e)
            | (st1, None) \<Rightarrow> (st1\<lparr>new_stream_subs := new_stream_subs st1 - {r}\<rparr>, None))
      else (st, None))"

text \<open>
  One round of the loop of \<^verbatim>\<open>_on_run_complete\<close>: a line that the axes no longer hold
  is passed over, a line they hold takes the next colour of the cycle.
\<close>

definition recolor :: "nat \<Rightarrow> recent_lines \<Rightarrow> recent_lines" where
  "recolor u st =
     (case find (\<lambda>l. uuid l = u) (axes_lines st) of
        None \<Rightarrow> st
      | Some l \<Rightarrow>
          st\<lparr>axes_lines := set_color u (next_color (color_cycle st)) (axes_lines st),
             color_cycle := Suc (color_cycle st)\<rparr>)"

text \<open>
  \<^verbatim>\<open>_on_run_complete\<close>. Reading \<^verbatim>\<open>self._runs_to_lines[run_uid]\<close> never raises: the
  dictionary is a \<^verbatim>\<open>defaultdict\<close>, which enters an empty set for a missing key.
\<close>

definition on_run_complete :: "run \<Rightarrow> recent_lines \<Rightarrow> recent_lines \<times> error option" where
  "on_run_complete r st =
     (let us = (case runs_to_lines st (uid r) of None \<Rightarrow> [] | Some us \<Rightarrow> us);
          st1 = st\<lparr>runs_to_lines := (runs_to_lines st)(uid r \<mapsto> us)\<rparr>
      in (fold recolor us st1, None))"

text \<open>The setter of \<^verbatim>\<open>max_runs\<close>: the assignment, then \<^verbatim>\<open>_cull_runs\<close>.\<close>

definition set_max_runs :: "int \<Rightarrow> recent_lines \<Rightarrow> recent_lines \<times> error option" where
  "set_max_runs v st = cull_runs (st\<lparr>max_runs := v\<rparr>)"

text \<open>
  Modelled from the spec: the emitters \<^verbatim>\<open>run.events.new_stream\<close> and
  \<^verbatim>\<open>run.events.completed\<close> of a run. An event reaches the controller only while its
  handler is connected.
\<close>

definition emit_new_stream ::
  "run \<Rightarrow> string list \<Rightarrow> bool \<Rightarrow> recent_lines \<Rightarrow> recent_lines \<times> error option" where
  "emit_new_stream r streams live st =
     (if r \<in> new_stream_subs st then on_new_stream r streams live st else (st, None))"

definition emit_completed :: "run \<Rightarrow> recent_lines \<Rightarrow> recent_lines \<times> error option" where
  "emit_completed r st =
     (if r \<in> completed_subs st then on_run_complete r st else (st, None))"

text \<open>
  What can happen to a controller, one call or event at a time. A sequence of them is
  run from left to right; a call that raises leaves the state it reached, and the next
  call starts there.
\<close>

datatype op =
    AddRun run bool "string list" bool
  | DiscardRun run
  | SetMaxRuns int
  | NewStream run "string list" bool
  | Completed run

fun step :: "op \<Rightarrow> recent_lines \<Rightarrow> recent_lines \<times> error option" where
  "step (AddRun r pin streams live) st = add_run r pin streams live st"
| "step (DiscardRun r) st = discard_run r st"
| "step (SetMaxRuns v) st = set_max_runs v st"
| "step (NewStream r streams live) st = emit_new_stream r streams live st"
| "step (Completed r) st = emit_completed r st"

definition run_ops :: "op list \<Rightarrow> recent_lines \<Rightarrow> recent_lines" where
  "run_ops ops st = fold (\<lambda>op s. fst (step op s)) ops st"

subsection \<open>RecentLines: notions used in the properties\<close>

text \<open>
  The bound of \<^verbatim>\<open>_cull_runs\<close>: \<^verbatim>\<open>len(self.runs) <= self.max_runs + len(self._pinned)\<close>.
\<close>

definition within_capacity :: "recent_lines \<Rightarrow> bool" where
  "within_capacity st \<longleftrightarrow> int (length (runs st)) \<le> max_runs st + int (card (pinned st))"

text \<open>A run is tracked and its uid is pinned.\<close>

definition holds_pinned :: "run \<Rightarrow> recent_lines \<Rightarrow> bool" where
  "holds_pinned r st \<longleftrightarrow> r \<in> set (runs st) \<and> uid r \<in> pinned st"

text \<open>
  The uuids entered under a uid; whether the axes hold a line of a given uuid; whether
  the line that the lookup by uuid finds, if there is one, has a colour of the palette.
\<close>

definition indexed :: "recent_lines \<Rightarrow> string \<Rightarrow> nat list" where
  "indexed st u = (case runs_to_lines st u of None \<Rightarrow> [] | Some us \<Rightarrow> us)"

definition held :: "recent_lines \<Rightarrow> nat \<Rightarrow> bool" where
  "held st u \<longleftrightarrow> u \<in> uuid ` set (axes_lines st)"

definition palette_colored :: "recent_lines \<Rightarrow> nat \<Rightarrow> bool" where
  "palette_colored st u \<longleftrightarrow>
     (case find (\<lambda>l. uuid l = u) (axes_lines st) of
        None \<Rightarrow> True | Some l \<Rightarrow> color l \<in> set palette)"

text \<open>Adding runs one after the other, none pinned, each with what is read of it then.\<close>

definition add_all :: "(run \<times> string list \<times> bool) list \<Rightarrow> op list" where
  "add_all rs = map (\<lambda>(r, streams, live). AddRun r False streams live) rs"

subsection \<open>RecentLines: example objects\<close>

text \<open>
  Four runs with distinct uids, the label the default label maker gives a run without a
  scan id when there is one y expression, and the controller
  \<^verbatim>\<open>RecentLines(m, "motor", l)\<close> with the default \<^verbatim>\<open>needs_streams=("primary",)\<close>.
\<close>

definition scan_label :: "run \<Rightarrow> string \<Rightarrow> string" where
  "scan_label r y = ''Scan ?''"

definition run1 :: run where "run1 = \<lparr>ident = 1, uid = ''u1''\<rparr>"
definition run2 :: run where "run2 = \<lparr>ident = 2, uid = ''u2''\<rparr>"
definition run3 :: run where "run3 = \<lparr>ident = 3, uid = ''u3''\<rparr>"
definition run4 :: run where "run4 = \<lparr>ident = 4, uid = ''u4''\<rparr>"

definition controller :: "int \<Rightarrow> string list \<Rightarrow> recent_lines" where
  "controller m l = new_RecentLines m ''motor'' l scan_label [''primary'']"

section \<open>Properties\<close>

subsection \<open>The raster of a snaking scan\<close>

text \<open>
  C5. For shape (2, 3) and snaking (False, True) the transform of the data
  0, 1, 2, 3, 4, 5 is the grid with rows 0 1 2 and 5 4 3: the odd row is mirrored in
  the column axis. With snaking (False, False) the same data gives the rows 0 1 2 and
  3 4 5, the row-major unravelling.
\<close>

theorem raster_snaking_example:
  "Rastered_transform (2, 3) (False, True) [0, 1, 2, 3, 4, 5 :: int]
     = Inr [[Some 0, Some 1, Some 2], [Some 5, Some 4, Some 3]]
   \<and> Rastered_transform (2, 3) (False, False) [0, 1, 2, 3, 4, 5 :: int]
     = Inr [[Some 0, Some 1, Some 2], [Some 3, Some 4, Some 5]]"
  by code_simp

subsection \<open>The collapse of an array to an image\<close>

lemma index0_shape: "index0 a k = Inr b \<Longrightarrow> nd_shape b = tl (nd_shape a)"
  by (auto simp: index0_def split: list.splits if_splits)

lemma Image_transform_collapse:
  "2 \<le> ndim a \<Longrightarrow> Image_transform a = take_slices (middle_indices a) a"
proof (induction a rule: Image_transform.induct)
  case (1 a)
  show ?case
  proof (cases "2 < ndim a")
    case False
    with "1.prems" have "ndim a = 2" by simp
    then show ?thesis
      by (simp add: Image_transform.simps middle_indices_def)
  next
    case True
    then obtain n rest where sh: "nd_shape a = n # rest" and len: "2 \<le> length rest"
      by (cases "nd_shape a") (auto simp: ndim_def)
    have mi: "middle_indices a = (n div 2) # map (\<lambda>n. n div 2) (take (length rest - 2) rest)"
      using len
      by (simp add: middle_indices_def ndim_def sh Suc_diff_le take_Cons' numeral_2_eq_2)
    show ?thesis
    proof (cases "index0 a (n div 2)")
      case (Inl e)
      then show ?thesis using True by (simp add: Image_transform.simps [of a] mi sh)
    next
      case (Inr b)
      have shb: "nd_shape b = rest" using index0_shape [OF Inr] sh by simp
      have "Image_transform b = take_slices (middle_indices b) b"
        using "1.IH" [OF True, of b] Inr sh len shb by (simp add: ndim_def)
      moreover have "middle_indices b = map (\<lambda>n. n div 2) (take (length rest - 2) rest)"
        by (simp add: middle_indices_def ndim_def shb)
      ultimately show ?thesis
        using True Inr by (simp add: Image_transform.simps [of a] mi sh)
    qed
  qed
qed

lemma Image_transform_ndim:
  "2 \<le> ndim a \<Longrightarrow> Image_transform a = Inr b \<Longrightarrow> ndim b = 2"
proof (induction a rule: Image_transform.induct)
  case (1 a)
  show ?case
  proof (cases "2 < ndim a")
    case False
    with "1.prems" show ?thesis by (simp add: Image_transform.simps [of a])
  next
    case True
    then obtain c where c: "index0 a (hd (nd_shape a) div 2) = Inr c"
      and t: "Image_transform c = Inr b"
      using "1.prems"(2) by (auto simp: Image_transform.simps [of a] split: sum.splits)
    have "nd_shape c = tl (nd_shape a)" using index0_shape [OF c] .
    then have "2 \<le> ndim c" using True by (simp add: ndim_def)
    then show ?thesis using "1.IH" [OF True c] t by simp
  qed
qed

lemma Image_transform_456:
  assumes "nd_shape a = [4, 5, 6]"
  shows "index0 a 2 = Inr \<lparr>nd_shape = [5, 6], nd_data = take 30 (drop 60 (nd_data a))\<rparr>"
    and "Image_transform a = index0 a 2"
proof -
  show i: "index0 a 2 = Inr \<lparr>nd_shape = [5, 6], nd_data = take 30 (drop 60 (nd_data a))\<rparr>"
    using assms by (simp add: index0_def)
  have "Image_transform \<lparr>nd_shape = [5, 6], nd_data = take 30 (drop 60 (nd_data a))\<rparr>
      = Inr \<lparr>nd_shape = [5, 6], nd_data = take 30 (drop 60 (nd_data a))\<rparr>"
    by (simp add: Image_transform.simps ndim_def)
  then show "Image_transform a = index0 a 2" using assms i
    by (simp add: Image_transform.simps [of a] ndim_def)
qed

text \<open>
  C8. For every array with more than two dimensions the transform returns what taking
  the slice at the floor of half of the leading dimension, again and again until two
  dimensions remain, returns (an IndexError where a leading dimension is zero), and an
  array it returns has exactly two dimensions. For an input of shape (4, 5, 6) it
  returns the slice at index 2 of the leading axis, of shape (5, 6), whose elements are
  the thirty elements of the input from position 60 on: nothing is averaged.
\<close>

theorem image_middle_slice_collapse:
  "(2 < ndim a \<longrightarrow>
      Image_transform a = take_slices (middle_indices a) a
      \<and> (\<forall>b. Image_transform a = Inr b \<longrightarrow> ndim b = 2))
   \<and> (nd_shape a = [4, 5, 6] \<longrightarrow>
      Image_transform a = index0 a 2
      \<and> index0 a 2 = Inr \<lparr>nd_shape = [5, 6], nd_data = take 30 (drop 60 (nd_data a))\<rparr>)"
  using Image_transform_collapse [of a] Image_transform_ndim [of a] Image_transform_456 [of a]
  by auto

theorem image_middle_slice_collapse_witness:
  "2 < ndim \<lparr>nd_shape = [4, 5, 6], nd_data = [0..<120]\<rparr>
   \<and> nd_shape \<lparr>nd_shape = [4, 5, 6], nd_data = [0..<120]\<rparr> = [4, 5, 6]
   \<and> Image_transform \<lparr>nd_shape = [4, 5, 6], nd_data = [0..<120]\<rparr>
       = Inr \<lparr>nd_shape = [5, 6], nd_data = [60..<90]\<rparr>
   \<and> take_slices (middle_indices \<lparr>nd_shape = [4, 5, 6], nd_data = [0..<120]\<rparr>)
        \<lparr>nd_shape = [4, 5, 6], nd_data = [0..<120]\<rparr>
       = Inr \<lparr>nd_shape = [5, 6], nd_data = [60..<90]\<rparr>
   \<and> ndim \<lparr>nd_shape = [5, 6], nd_data = [60..<90]\<rparr> = 2"
  using image_middle_slice_collapse [of "\<lparr>nd_shape = [4, 5, 6], nd_data = [0..<120]\<rparr>"]
  by (auto simp: ndim_def)

subsection \<open>Orientation of a rastered image\<close>

lemma py_gt_total: "a \<noteq> b \<Longrightarrow> a \<noteq> NaN \<Longrightarrow> b \<noteq> NaN \<Longrightarrow> py_gt a b \<or> py_gt b a"
  by (cases a; cases b) auto

lemma py_gt_asym: "py_gt a b \<Longrightarrow> \<not> py_gt b a"
  by (cases a; cases b) auto

lemma py_gt_irrefl: "\<not> py_gt a a"
  by (cases a) auto

text \<open>
  C10, as the code has it. Where the x limits are a pair (a, b) with a \<noteq> b and neither
  of them a NaN, setting \<open>x_positive\<close> to "right" or "left" raises nothing, and reading
  it afterwards returns the value set. What the getter returns depends on the order of
  the limits alone, NaN or not: "left" exactly when the first limit is greater than the
  second, and the getter overwrites the stored orientation with what it returns. The
  same holds of \<open>y_positive\<close> with "up", "down" and the y limits.
\<close>

theorem orientation_round_trip:
  "(x_limits s = Some (a, b) \<and> a \<noteq> b \<and> a \<noteq> NaN \<and> b \<noteq> NaN
      \<and> v \<in> {''right'', ''left''} \<longrightarrow>
      snd (set_x_positive v s) = None
      \<and> snd (get_x_positive (fst (set_x_positive v s))) = Inr v)
   \<and> (x_limits s = Some (a, b) \<longrightarrow>
      get_x_positive s =
        (s\<lparr>stored_x_positive := (if py_gt a b then ''left'' else ''right'')\<rparr>,
         Inr (if py_gt a b then ''left'' else ''right'')))
   \<and> (y_limits s = Some (c, d) \<and> c \<noteq> d \<and> c \<noteq> NaN \<and> d \<noteq> NaN
      \<and> w \<in> {''up'', ''down''} \<longrightarrow>
      snd (set_y_positive w s) = None
      \<and> snd (get_y_positive (fst (set_y_positive w s))) = Inr w)
   \<and> (y_limits s = Some (c, d) \<longrightarrow>
      get_y_positive s =
        (s\<lparr>stored_y_positive := (if py_gt c d then ''down'' else ''up'')\<rparr>,
         Inr (if py_gt c d then ''down'' else ''up'')))"
proof -
  have x: "snd (set_x_positive v s) = None
      \<and> snd (get_x_positive (fst (set_x_positive v s))) = Inr v"
    if l: "x_limits s = Some (a, b)" and n: "a \<noteq> b" "a \<noteq> NaN" "b \<noteq> NaN"
      and m: "v \<in> {''right'', ''left''}"
  proof -
    consider "py_gt a b" "\<not> py_gt b a" | "py_gt b a" "\<not> py_gt a b"
      using py_gt_total [OF n] py_gt_asym by blast
    then show ?thesis
      using l m
      by cases (auto simp: set_x_positive_def get_x_positive_def py_ge_def Let_def)
  qed
  have y: "snd (set_y_positive w s) = None
      \<and> snd (get_y_positive (fst (set_y_positive w s))) = Inr w"
    if l: "y_limits s = Some (c, d)" and n: "c \<noteq> d" "c \<noteq> NaN" "d \<noteq> NaN"
      and m: "w \<in> {''up'', ''down''}"
  proof -
    consider "py_gt c d" "\<not> py_gt d c" | "py_gt d c" "\<not> py_gt c d"
      using py_gt_total [OF n] py_gt_asym by blast
    then show ?thesis
      using l m
      by cases (auto simp: set_y_positive_def get_y_positive_def py_ge_def Let_def)
  qed
  have gx: "get_x_positive s =
        (s\<lparr>stored_x_positive := (if py_gt a b then ''left'' else ''right'')\<rparr>,
         Inr (if py_gt a b then ''left'' else ''right''))" if "x_limits s = Some (a, b)"
    using that by (simp add: get_x_positive_def)
  have gy: "get_y_positive s =
        (s\<lparr>stored_y_positive := (if py_gt c d then ''down'' else ''up'')\<rparr>,
         Inr (if py_gt c d then ''down'' else ''up''))" if "y_limits s = Some (c, d)"
    using that by (simp add: get_y_positive_def)
  show ?thesis
  proof (intro conjI impI; (elim conjE)?)
    show "snd (set_x_positive v s) = None"
      if "x_limits s = Some (a, b)" and "a \<noteq> b" "a \<noteq> NaN" "b \<noteq> NaN"
        and "v \<in> {''right'', ''left''}"
      using x [OF that] by simp
    show "snd (get_x_positive (fst (set_x_positive v s))) = Inr v"
      if "x_limits s = Some (a, b)" and "a \<noteq> b" "a \<noteq> NaN" "b \<noteq> NaN"
        and "v \<in> {''right'', ''left''}"
      using x [OF that] by simp
    show "snd (set_y_positive w s) = None"
      if "y_limits s = Some (c, d)" and "c \<noteq> d" "c \<noteq> NaN" "d \<noteq> NaN"
        and "w \<in> {''up'', ''down''}"
      using y [OF that] by simp
    show "snd (get_y_positive (fst (set_y_positive w s))) = Inr w"
      if "y_limits s = Some (c, d)" and "c \<noteq> d" "c \<noteq> NaN" "d \<noteq> NaN"
        and "w \<in> {''up'', ''down''}"
      using y [OF that] by simp
  qed (rule gx gy, assumption)+
qed

theorem orientation_round_trip_witness:
  "snd (get_x_positive (fst (set_x_positive ''left''
      \<lparr>stored_x_positive = ''right'', stored_y_positive = ''up'',
       x_limits = Some (Num (- 1 / 2), Num (5 / 2)),
       y_limits = Some (Num (- 1 / 2), Num (3 / 2))\<rparr>))) = Inr ''left''
   \<and> snd (get_y_positive (fst (set_y_positive ''down''
      \<lparr>stored_x_positive = ''right'', stored_y_positive = ''up'',
       x_limits = Some (Num (- 1 / 2), Num (5 / 2)),
       y_limits = Some (Num (- 1 / 2), Num (3 / 2))\<rparr>))) = Inr ''down''
   \<and> snd (get_x_positive
      \<lparr>stored_x_positive = ''left'', stored_y_positive = ''up'',
       x_limits = Some (Num (- 1 / 2), Num (5 / 2)),
       y_limits = Some (Num (- 1 / 2), Num (3 / 2))\<rparr>) = Inr ''right''"
  using orientation_round_trip [of
      "\<lparr>stored_x_positive = ''right'', stored_y_positive = ''up'',
        x_limits = Some (Num (- 1 / 2), Num (5 / 2)),
        y_limits = Some (Num (- 1 / 2), Num (3 / 2))\<rparr>"
      "Num (- 1 / 2)" "Num (5 / 2)" "''left''" "Num (- 1 / 2)" "Num (3 / 2)" "''down''"]
    orientation_round_trip [of
      "\<lparr>stored_x_positive = ''left'', stored_y_positive = ''up'',
        x_limits = Some (Num (- 1 / 2), Num (5 / 2)),
        y_limits = Some (Num (- 1 / 2), Num (3 / 2))\<rparr>"
      "Num (- 1 / 2)" "Num (5 / 2)" "''left''" "Num (- 1 / 2)" "Num (3 / 2)" "''down''"]
  by simp

text \<open>
  C10, as stated, fails at a NaN limit. With the x limits (NaN, 1.0) the two limits
  differ, also for Python's \<^verbatim>\<open>!=\<close>, yet every comparison of the setter is False:
  setting "left" raises nothing, stores "left" and leaves the limits as they are, and
  the getter then returns "right". The same happens to "down" with the y limits
  (NaN, 1.0).
\<close>

theorem orientation_round_trip_fails_at_nan:
  "NaN \<noteq> Num 1 \<and> py_ne NaN (Num 1)
   \<and> set_x_positive ''left''
        \<lparr>stored_x_positive = ''right'', stored_y_positive = ''up'',
         x_limits = Some (NaN, Num 1), y_limits = Some (NaN, Num 1)\<rparr>
      = (\<lparr>stored_x_positive = ''left'', stored_y_positive = ''up'',
          x_limits = Some (NaN, Num 1), y_limits = Some (NaN, Num 1)\<rparr>, None)
   \<and> snd (get_x_positive (fst (set_x_positive ''left''
        \<lparr>stored_x_positive = ''right'', stored_y_positive = ''up'',
         x_limits = Some (NaN, Num 1), y_limits = Some (NaN, Num 1)\<rparr>))) = Inr ''right''
   \<and> snd (get_x_positive (fst (set_x_positive ''left''
        \<lparr>stored_x_positive = ''right'', stored_y_positive = ''up'',
         x_limits = Some (NaN, Num 1), y_limits = Some (NaN, Num 1)\<rparr>))) \<noteq> Inr ''left''
   \<and> snd (get_y_positive (fst (set_y_positive ''down''
        \<lparr>stored_x_positive = ''right'', stored_y_positive = ''up'',
         x_limits = Some (NaN, Num 1), y_limits = Some (NaN, Num 1)\<rparr>))) = Inr ''up''"
  by (simp add: set_x_positive_def get_x_positive_def set_y_positive_def get_y_positive_def
      py_ge_def py_ne_def)

subsection \<open>Configuration errors\<close>

text \<open>
  C9. Constructing \<open>RecentLines\<close> with a single string as \<open>ys\<close> raises ValueError.
  Assigning to \<open>x_positive\<close> a value other than "right" and "left" raises ValueError,
  and so does assigning to \<open>y_positive\<close> a value other than "up" and "down"; in both
  setters the object is then as it was before the call: neither the stored orientation
  nor a limit has changed.
\<close>

theorem configuration_errors_immediate:
  "RecentLines_init m x (YsStr y) lm needs = Inl ValueError
   \<and> (v \<notin> {''right'', ''left''} \<longrightarrow> set_x_positive v s = (s, Some ValueError))
   \<and> (w \<notin> {''up'', ''down''} \<longrightarrow> set_y_positive w s = (s, Some ValueError))"
  by (simp add: RecentLines_init_def set_x_positive_def set_y_positive_def)

theorem configuration_errors_immediate_witness:
  "''up'' \<notin> {''right'', ''left''} \<and> ''left'' \<notin> {''up'', ''down''}
   \<and> set_x_positive ''up''
       \<lparr>stored_x_positive = ''right'', stored_y_positive = ''up'',
        x_limits = Some (Num 0, Num 1), y_limits = None\<rparr>
     = (\<lparr>stored_x_positive = ''right'', stored_y_positive = ''up'',
         x_limits = Some (Num 0, Num 1), y_limits = None\<rparr>, Some ValueError)
   \<and> set_y_positive ''left''
       \<lparr>stored_x_positive = ''right'', stored_y_positive = ''up'',
        x_limits = Some (Num 0, Num 1), y_limits = None\<rparr>
     = (\<lparr>stored_x_positive = ''right'', stored_y_positive = ''up'',
         x_limits = Some (Num 0, Num 1), y_limits = None\<rparr>, Some ValueError)"
  using configuration_errors_immediate [of 3 "''x''" "''det''" "\<lambda>r y. ''Scan''" "[''primary'']"
      "''up''"
      "\<lparr>stored_x_positive = ''right'', stored_y_positive = ''up'',
        x_limits = Some (Num 0, Num 1), y_limits = None\<rparr>" "''left''"]
  by simp

subsection \<open>Eviction\<close>

text \<open>
  The inner loop stops at a run that is not pinned, so the eviction never takes a pinned
  run out and never changes the set of pinned uids.
\<close>

lemma skip_pinned_unpinned:
  "skip_pinned st i = Inr j \<Longrightarrow> uid (runs st ! j) \<notin> pinned st"
  by (induction st i rule: skip_pinned.induct)
     (subst (asm) skip_pinned.simps, auto split: if_splits)

lemma skip_pinned_all_pinned:
  "\<forall>q \<in> set (runs st). uid q \<in> pinned st \<Longrightarrow> skip_pinned st i = Inl IndexError"
  by (induction st i rule: skip_pinned.induct)
     (subst skip_pinned.simps, auto)

lemma on_run_removed_unpinned:
  assumes "uid q \<notin> pinned st" and "on_run_removed q st = (st1, e)"
  shows "pinned st1 = pinned st" and "max_runs st1 = max_runs st" and "runs st1 = runs st"
  using assms by (auto simp: on_run_removed_def Let_def split: option.splits)

lemma runs_pop_unpinned:
  assumes "skip_pinned st i = Inr j" and "runs_pop j st = (st1, e)"
  shows "pinned st1 = pinned st"
    and "runs st1 = take j (runs st) @ drop (Suc j) (runs st)"
    and "max_runs st1 = max_runs st"
proof -
  have j: "j < length (runs st)" and u: "uid (runs st ! j) \<notin> pinned st"
    using assms(1) skip_pinned_bound skip_pinned_unpinned by blast+
  let ?st = "st\<lparr>runs := take j (runs st) @ drop (Suc j) (runs st)\<rparr>"
  have r: "on_run_removed (runs st ! j) ?st = (st1, e)"
    using assms(2) j by (simp add: runs_pop_def)
  have u': "uid (runs st ! j) \<notin> pinned ?st" using u by simp
  show "pinned st1 = pinned st" using on_run_removed_unpinned(1) [OF u' r] by simp
  show "runs st1 = take j (runs st) @ drop (Suc j) (runs st)"
    using on_run_removed_unpinned(3) [OF u' r] by simp
  show "max_runs st1 = max_runs st" using on_run_removed_unpinned(2) [OF u' r] by simp
qed

lemma cull_loop_pinned: "pinned (fst (cull_loop i st)) = pinned st"
proof (induction i st rule: cull_loop.induct)
  case (1 i st)
  show ?case
  proof (cases "int (length (runs st)) > max_runs st + int (card (pinned st))")
    case False
    then show ?thesis by (simp add: cull_loop.simps [of i st])
  next
    case True
    show ?thesis
    proof (cases "skip_pinned st i")
      case (Inl e)
      then show ?thesis using True by (simp add: cull_loop.simps [of i st])
    next
      case (Inr j)
      obtain st1 e where p: "runs_pop j st = (st1, e)" by (cases "runs_pop j st")
      show ?thesis
      proof (cases e)
        case None
        have "pinned (fst (cull_loop j st1)) = pinned st1"
          using "1.IH" [OF True Inr] p None by simp
        then show ?thesis
          using True Inr p None runs_pop_unpinned(1) [OF Inr p]
          by (simp add: cull_loop.simps [of i st])
      next
        case (Some a)
        then show ?thesis
          using True Inr p runs_pop_unpinned(1) [OF Inr p]
          by (simp add: cull_loop.simps [of i st])
      qed
    qed
  qed
qed

lemma cull_loop_keeps_pinned:
  "r \<in> set (runs st) \<Longrightarrow> uid r \<in> pinned st \<Longrightarrow> r \<in> set (runs (fst (cull_loop i st)))"
proof (induction i st rule: cull_loop.induct)
  case (1 i st)
  show ?case
  proof (cases "int (length (runs st)) > max_runs st + int (card (pinned st))")
    case False
    then show ?thesis using "1.prems" by (simp add: cull_loop.simps [of i st])
  next
    case True
    show ?thesis
    proof (cases "skip_pinned st i")
      case (Inl e)
      then show ?thesis using True "1.prems" by (simp add: cull_loop.simps [of i st])
    next
      case (Inr j)
      obtain st1 e where p: "runs_pop j st = (st1, e)" by (cases "runs_pop j st")
      have j: "j < length (runs st)" and u: "uid (runs st ! j) \<notin> pinned st"
        using Inr skip_pinned_bound skip_pinned_unpinned by blast+
      have "r \<noteq> runs st ! j" using u "1.prems"(2) by auto
      moreover have "runs st = take j (runs st) @ (runs st ! j) # drop (Suc j) (runs st)"
        using j id_take_nth_drop by blast
      ultimately have "r \<in> set (take j (runs st) @ drop (Suc j) (runs st))"
        using "1.prems"(1)
        by (metis Un_iff set_ConsD set_append)
      then have r1: "r \<in> set (runs st1)" using runs_pop_unpinned(2) [OF Inr p] by simp
      have p1: "uid r \<in> pinned st1" using runs_pop_unpinned(1) [OF Inr p] "1.prems"(2) by simp
      show ?thesis
      proof (cases e)
        case None
        then show ?thesis
          using True Inr p "1.IH" [OF True Inr _ _ r1 p1]
          by (simp add: cull_loop.simps [of i st])
      next
        case (Some a)
        then show ?thesis
          using True Inr p r1 by (simp add: cull_loop.simps [of i st])
      qed
    qed
  qed
qed

lemma cull_loop_within:
  "int (length (runs st)) \<le> max_runs st + int (card (pinned st)) \<Longrightarrow> cull_loop i st = (st, None)"
  by (simp add: cull_loop.simps [of i st])

lemma cull_loop_all_pinned:
  "\<forall>q \<in> set (runs st). uid q \<in> pinned st \<Longrightarrow> runs (fst (cull_loop i st)) = runs st"
  using skip_pinned_all_pinned [of st i] by (simp add: cull_loop.simps [of i st])

lemma cull_loop_bound:
  "cull_loop i st = (st', None) \<Longrightarrow>
     int (length (runs st')) \<le> max_runs st' + int (card (pinned st'))"
proof (induction i st rule: cull_loop.induct)
  case (1 i st)
  show ?case
  proof (cases "int (length (runs st)) > max_runs st + int (card (pinned st))")
    case False
    then show ?thesis using "1.prems" by (simp add: cull_loop.simps [of i st])
  next
    case True
    show ?thesis
    proof (cases "skip_pinned st i")
      case (Inl e)
      then show ?thesis using True "1.prems" by (simp add: cull_loop.simps [of i st])
    next
      case (Inr j)
      obtain st1 e where p: "runs_pop j st = (st1, e)" by (cases "runs_pop j st")
      show ?thesis
      proof (cases e)
        case None
        then show ?thesis
          using True Inr p "1.IH" [OF True Inr _ _ ] "1.prems"
          by (simp add: cull_loop.simps [of i st])
      next
        case (Some a)
        then show ?thesis
          using True Inr p "1.prems" by (simp add: cull_loop.simps [of i st])
      qed
    qed
  qed
qed

lemma cull_loop_frame:
  assumes rem: "\<And>q s. f (fst (on_run_removed q s)) = f s"
    and upd: "\<And>s rs. f (s\<lparr>runs := rs\<rparr>) = f s"
  shows "f (fst (cull_loop i st)) = f st"
proof (induction i st rule: cull_loop.induct)
  case (1 i st)
  show ?case
  proof (cases "int (length (runs st)) > max_runs st + int (card (pinned st))")
    case False
    then show ?thesis by (simp add: cull_loop.simps [of i st])
  next
    case True
    show ?thesis
    proof (cases "skip_pinned st i")
      case (Inl e)
      then show ?thesis using True by (simp add: cull_loop.simps [of i st])
    next
      case (Inr j)
      obtain st1 e where p: "runs_pop j st = (st1, e)" by (cases "runs_pop j st")
      have "j < length (runs st)" using Inr skip_pinned_bound by blast
      then have f1: "f st1 = f st"
        using p rem [of "runs st ! j" "st\<lparr>runs := take j (runs st) @ drop (Suc j) (runs st)\<rparr>"]
          upd by (simp add: runs_pop_def)
      show ?thesis
      proof (cases e)
        case None
        then show ?thesis
          using True Inr p f1 "1.IH" [OF True Inr] by (simp add: cull_loop.simps [of i st])
      next
        case (Some a)
        then show ?thesis
          using True Inr p f1 by (simp add: cull_loop.simps [of i st])
      qed
    qed
  qed
qed

lemma cull_runs_ys: "ys (fst (cull_runs st)) = ys st"
  unfolding cull_runs_def
  by (rule cull_loop_frame) (simp_all add: on_run_removed_def Let_def split: option.splits)

lemma cull_runs_color_cycle: "color_cycle (fst (cull_runs st)) = color_cycle st"
  unfolding cull_runs_def
  by (rule cull_loop_frame) (simp_all add: on_run_removed_def Let_def split: option.splits)

subsection \<open>Pinned runs\<close>

lemma add_line_frame:
  "runs (add_line r live y st) = runs st"
  "pinned (add_line r live y st) = pinned st"
  "max_runs (add_line r live y st) = max_runs st"
  "needs_streams (add_line r live y st) = needs_streams st"
  "ys (add_line r live y st) = ys st"
  "new_stream_subs (add_line r live y st) = new_stream_subs st"
  by (simp_all add: add_line_def Let_def)

lemma fold_add_line_frame:
  "runs (fold (add_line r live) l st) = runs st"
  "pinned (fold (add_line r live) l st) = pinned st"
  "max_runs (fold (add_line r live) l st) = max_runs st"
  "needs_streams (fold (add_line r live) l st) = needs_streams st"
  "ys (fold (add_line r live) l st) = ys st"
  "new_stream_subs (fold (add_line r live) l st) = new_stream_subs st"
  by (induction l arbitrary: st; simp add: add_line_frame)+

lemma add_line_axes:
  "\<exists>ln. axes_lines (add_line r live y st) = axes_lines st @ [ln] \<and> line_run ln = r
        \<and> line_y ln = y \<and> (live \<longrightarrow> color ln = ''black'')"
  by (simp add: add_line_def Let_def)

lemma fold_add_line_axes:
  "\<exists>new. axes_lines (fold (add_line r live) l st) = axes_lines st @ new
         \<and> map line_y new = l
         \<and> (\<forall>ln \<in> set new. line_run ln = r \<and> (live \<longrightarrow> color ln = ''black''))"
proof (induction l arbitrary: st)
  case Nil
  show ?case by simp
next
  case (Cons y l)
  obtain ln where ln: "axes_lines (add_line r live y st) = axes_lines st @ [ln]"
    "line_run ln = r" "line_y ln = y" "live \<longrightarrow> color ln = ''black''"
    using add_line_axes [of r live y st] by blast
  obtain new where new: "axes_lines (fold (add_line r live) l (add_line r live y st))
      = axes_lines (add_line r live y st) @ new" "map line_y new = l"
    "\<forall>ln \<in> set new. line_run ln = r \<and> (live \<longrightarrow> color ln = ''black'')"
    using Cons.IH [of "add_line r live y st"] by blast
  show ?case
    by (rule exI [of _ "ln # new"]) (use ln new in simp)
qed

lemma add_line_completed:
  "live \<Longrightarrow> r \<in> completed_subs (add_line r live y st)"
  "q \<in> completed_subs st \<Longrightarrow> q \<in> completed_subs (add_line r live y st)"
  by (simp_all add: add_line_def Let_def)

lemma fold_add_line_completed_mono:
  "q \<in> completed_subs st \<Longrightarrow> q \<in> completed_subs (fold (add_line r live) l st)"
  by (induction l arbitrary: st) (simp_all add: add_line_completed)

lemma fold_add_line_completed:
  "live \<Longrightarrow> l \<noteq> [] \<Longrightarrow> r \<in> completed_subs (fold (add_line r live) l st)"
  by (cases l) (simp_all add: add_line_completed fold_add_line_completed_mono)

lemma cull_runs_holds: "holds_pinned r st \<Longrightarrow> holds_pinned r (fst (cull_runs st))"
  by (simp add: holds_pinned_def cull_runs_def cull_loop_pinned cull_loop_keeps_pinned)

lemma add_lines_holds: "holds_pinned r st \<Longrightarrow> holds_pinned r (fst (add_lines q live st))"
proof -
  assume h: "holds_pinned r st"
  obtain st1 e where c: "cull_runs st = (st1, e)" by (cases "cull_runs st")
  have "holds_pinned r st1" using cull_runs_holds [OF h] c by simp
  then show ?thesis using c
    by (cases e) (simp_all add: add_lines_def holds_pinned_def fold_add_line_frame)
qed

lemma add_run_holds: "holds_pinned r st \<Longrightarrow> holds_pinned r (fst (add_run q pin streams live st))"
proof -
  assume h: "holds_pinned r st"
  let ?st1 = "if pin then st\<lparr>pinned := insert (uid q) (pinned st)\<rparr> else st"
  let ?st2 = "?st1\<lparr>runs := runs ?st1 @ [q]\<rparr>"
  have "holds_pinned r ?st2" using h by (simp add: holds_pinned_def)
  then have "holds_pinned r (fst (on_run_added q streams live ?st2))"
    using add_lines_holds [of r ?st2 q live]
    by (auto simp: on_run_added_def holds_pinned_def)
  then show ?thesis by (simp add: add_run_def Let_def)
qed

lemma add_run_pins:
  "holds_pinned r (fst (add_run r True streams live st))"
proof -
  let ?st2 = "st\<lparr>pinned := insert (uid r) (pinned st), runs := runs st @ [r]\<rparr>"
  have "holds_pinned r ?st2" by (simp add: holds_pinned_def)
  then have "holds_pinned r (fst (on_run_added r streams live ?st2))"
    using add_lines_holds [of r ?st2 r live]
    by (auto simp: on_run_added_def holds_pinned_def)
  then show ?thesis by (simp add: add_run_def Let_def)
qed

lemma discard_run_holds:
  assumes "holds_pinned r st" and "uid q \<noteq> uid r"
  shows "holds_pinned r (fst (discard_run q st))"
proof -
  have "r \<noteq> q" using assms(2) by auto
  then have "r \<in> set (remove1 q (runs st))"
    using assms(1) by (simp add: holds_pinned_def in_set_remove1)
  then show ?thesis using assms
    by (auto simp: discard_run_def on_run_removed_def holds_pinned_def Let_def
        split: option.splits)
qed

lemma set_max_runs_holds: "holds_pinned r st \<Longrightarrow> holds_pinned r (fst (set_max_runs v st))"
  using cull_runs_holds [of r "st\<lparr>max_runs := v\<rparr>"]
  by (simp add: set_max_runs_def holds_pinned_def)

lemma emit_new_stream_holds:
  "holds_pinned r st \<Longrightarrow> holds_pinned r (fst (emit_new_stream q streams live st))"
  using add_lines_holds [of r st q live]
  by (auto simp: emit_new_stream_def on_new_stream_def holds_pinned_def
      split: prod.splits option.splits)

lemma recolor_frame:
  "runs (recolor u st) = runs st" "pinned (recolor u st) = pinned st"
  by (simp_all add: recolor_def split: option.splits)

lemma fold_recolor_frame:
  "runs (fold recolor us st) = runs st" "pinned (fold recolor us st) = pinned st"
  by (induction us arbitrary: st; simp add: recolor_frame)+

lemma emit_completed_holds:
  "holds_pinned r st \<Longrightarrow> holds_pinned r (fst (emit_completed q st))"
  by (simp add: emit_completed_def on_run_complete_def holds_pinned_def Let_def
      fold_recolor_frame)

lemma step_holds:
  "holds_pinned r st \<Longrightarrow> (\<forall>q. op = DiscardRun q \<longrightarrow> uid q \<noteq> uid r) \<Longrightarrow>
     holds_pinned r (fst (step op st))"
  by (cases op)
     (simp_all add: add_run_holds discard_run_holds set_max_runs_holds
        emit_new_stream_holds emit_completed_holds)

lemma run_ops_holds:
  "holds_pinned r st \<Longrightarrow> (\<forall>q. DiscardRun q \<in> set ops \<longrightarrow> uid q \<noteq> uid r) \<Longrightarrow>
     holds_pinned r (run_ops ops st)"
proof (induction ops arbitrary: st)
  case Nil
  then show ?case by (simp add: run_ops_def)
next
  case (Cons op ops)
  have "holds_pinned r (fst (step op st))"
    using step_holds [of r st op] Cons.prems by auto
  then have "holds_pinned r (run_ops ops (fst (step op st)))"
    using Cons.IH Cons.prems(2) by auto
  then show ?case by (simp add: run_ops_def)
qed

text \<open>
  C7. A pinned run is never removed by the eviction: the eviction keeps every tracked run
  whose uid is pinned, and keeps it pinned. A run added with \<open>pinned=True\<close> is tracked
  and pinned when \<open>add_run\<close> ends, and it stays so through every sequence of further
  additions, assignments to \<open>max_runs\<close> and events of runs, until a run of its uid is
  discarded. Where every tracked run is pinned the eviction removes nothing, whatever
  \<open>max_runs\<close> is, so the registry may stay above \<open>max_runs\<close>.
\<close>

theorem pinned_run_never_evicted:
  "(r \<in> set (runs st) \<and> uid r \<in> pinned st \<longrightarrow>
      r \<in> set (runs (fst (cull_runs st))) \<and> uid r \<in> pinned (fst (cull_runs st)))
   \<and> r \<in> set (runs (fst (add_run r True streams live st)))
   \<and> uid r \<in> pinned (fst (add_run r True streams live st))
   \<and> (r \<in> set (runs st) \<and> uid r \<in> pinned st
        \<and> (\<forall>q. DiscardRun q \<in> set ops \<longrightarrow> uid q \<noteq> uid r) \<longrightarrow>
      r \<in> set (runs (run_ops ops st)) \<and> uid r \<in> pinned (run_ops ops st))
   \<and> ((\<forall>q \<in> set (runs st). uid q \<in> pinned st) \<longrightarrow> runs (fst (cull_runs st)) = runs st)"
  using cull_runs_holds [of r st] add_run_pins [of r streams live st] run_ops_holds [of r st ops]
    cull_loop_all_pinned [of st 0]
  by (simp add: holds_pinned_def cull_runs_def)

theorem pinned_run_never_evicted_witness:
  "run1 \<in> set (runs (run_ops
      [AddRun run2 False [''primary''] False, AddRun run3 False [''primary''] False,
       DiscardRun run2, SetMaxRuns 0, AddRun run4 False [''primary''] True]
      (fst (add_run run1 True [''primary''] False (controller 1 [''det''])))))
   \<and> runs (fst (cull_runs (run_ops
        [AddRun run1 True [] False, AddRun run2 True [] False] (controller 1 [''det'']))))
     = [run1, run2]"
proof -
  let ?st = "fst (add_run run1 True [''primary''] False (controller 1 [''det'']))"
  let ?ops = "[AddRun run2 False [''primary''] False, AddRun run3 False [''primary''] False,
       DiscardRun run2, SetMaxRuns 0, AddRun run4 False [''primary''] True]"
  let ?st2 = "run_ops [AddRun run1 True [] False, AddRun run2 True [] False] (controller 1 [''det''])"
  have h: "run1 \<in> set (runs ?st) \<and> uid run1 \<in> pinned ?st" by code_simp
  have d: "\<forall>q. DiscardRun q \<in> set ?ops \<longrightarrow> uid q \<noteq> uid run1"
    by (simp add: run1_def run2_def)
  have a: "\<forall>q \<in> set (runs ?st2). uid q \<in> pinned ?st2" by code_simp
  have r: "runs ?st2 = [run1, run2]" by code_simp
  show ?thesis
    using pinned_run_never_evicted [of run1 ?st "[''primary'']" False ?ops] h d
      pinned_run_never_evicted [of run1 ?st2 "[]" False "[]"] a r
    by simp
qed

subsection \<open>The capacity bound\<close>

text \<open>
  Whatever calls \<^verbatim>\<open>_cull_runs\<close> and returns without raising leaves the registry within
  the bound, and discarding a run keeps the bound.
\<close>

lemma capacity_after_cull:
  "snd (cull_runs st) = None \<Longrightarrow> within_capacity (fst (cull_runs st))"
  using cull_loop_bound [of 0 st "fst (cull_runs st)"]
  by (cases "cull_runs st") (simp add: within_capacity_def cull_runs_def)

lemma capacity_after_set_max_runs:
  "snd (set_max_runs v st) = None \<Longrightarrow> within_capacity (fst (set_max_runs v st))"
  using capacity_after_cull [of "st\<lparr>max_runs := v\<rparr>"] by (simp add: set_max_runs_def)

lemma capacity_after_add_lines:
  assumes "snd (add_lines r live st) = None"
  shows "within_capacity (fst (add_lines r live st))"
proof -
  obtain st1 e where c: "cull_runs st = (st1, e)" by (cases "cull_runs st")
  have e: "e = None" using assms c by (cases e) (simp_all add: add_lines_def)
  have "within_capacity st1" using capacity_after_cull [of st] c e by simp
  then show ?thesis using c e
    by (simp add: add_lines_def within_capacity_def fold_add_line_frame)
qed

lemma capacity_after_active_add:
  "set (needs_streams st) \<subseteq> set streams \<Longrightarrow> snd (add_run r pin streams live st) = None \<Longrightarrow>
     within_capacity (fst (add_run r pin streams live st))"
  using capacity_after_add_lines
  by (cases pin) (simp_all add: add_run_def on_run_added_def)

lemma capacity_after_discard:
  assumes "within_capacity st"
  shows "within_capacity (fst (discard_run r st))"
proof (cases "r \<in> set (runs st)")
  case False
  then show ?thesis using assms by (simp add: discard_run_def)
next
  case True
  then have l: "length (remove1 r (runs st)) = length (runs st) - 1" "0 < length (runs st)"
    by (auto simp: length_remove1)
  have c: "card (pinned st) \<le> Suc (card (pinned st - {uid r}))"
  proof (cases "finite (pinned st) \<and> uid r \<in> pinned st")
    case True
    then show ?thesis by (simp add: card_Suc_Diff1)
  next
    case False
    then show ?thesis by (cases "finite (pinned st)") auto
  qed
  have "int (length (runs st) - Suc 0) \<le> max_runs st + int (card (pinned st - {uid r}))"
    using assms c l(2) by (cases "runs st") (auto simp: within_capacity_def)
  then show ?thesis using True l(1)
    by (simp add: discard_run_def on_run_removed_def Let_def within_capacity_def
        split: option.splits)
qed

text \<open>
  Adding a run that awaits a stream appends it and evicts nothing: a registry at the
  bound is above it afterwards, unless the call pins a uid that was not pinned.
\<close>

lemma pending_add_exceeds_bound:
  assumes "\<not> set (needs_streams st) \<subseteq> set streams"
    and "int (length (runs st)) = max_runs st + int (card (pinned st))"
  shows "snd (add_run r False streams live st) = None"
    and "\<not> within_capacity (fst (add_run r False streams live st))"
  using assms by (simp_all add: add_run_def on_run_added_def within_capacity_def)

text \<open>
  C1. The bound \<open>len(runs) \<le> max_runs + len(pinned)\<close> is to hold after every
  \<open>add_run\<close>, also of a run whose streams are not yet there. It does not: with
  \<open>max_runs = 1\<close>, after a first run with its stream and a second run without,
  \<open>add_run\<close> has raised nothing, two runs are tracked and none is pinned. Only the
  branch of \<^verbatim>\<open>_on_run_added\<close> that draws lines evicts: had the second run had its
  stream, the first run would have been evicted.
\<close>

theorem capacity_exceeded_by_pending_add:
  "snd (add_run run2 False [] False
          (fst (add_run run1 False [''primary''] False (controller 1 [''det'']))))
     = None
   \<and> runs (fst (add_run run2 False [] False
          (fst (add_run run1 False [''primary''] False (controller 1 [''det''])))))
     = [run1, run2]
   \<and> max_runs (fst (add_run run2 False [] False
          (fst (add_run run1 False [''primary''] False (controller 1 [''det''])))))
     = 1
   \<and> card (pinned (fst (add_run run2 False [] False
          (fst (add_run run1 False [''primary''] False (controller 1 [''det''])))))) = 0
   \<and> \<not> within_capacity (fst (add_run run2 False [] False
          (fst (add_run run1 False [''primary''] False (controller 1 [''det''])))))
   \<and> runs (fst (add_run run2 False [''primary''] False
          (fst (add_run run1 False [''primary''] False (controller 1 [''det''])))))
     = [run2]"
  by code_simp

subsection \<open>First in, first out\<close>

lemma on_run_removed_frame:
  "needs_streams (fst (on_run_removed q st)) = needs_streams st"
  "ys (fst (on_run_removed q st)) = ys st"
  "max_runs (fst (on_run_removed q st)) = max_runs st"
  by (simp_all add: on_run_removed_def Let_def split: option.splits)

lemma runs_pop_frame:
  "needs_streams (fst (runs_pop j st)) = needs_streams st"
  "ys (fst (runs_pop j st)) = ys st"
  by (simp_all add: runs_pop_def on_run_removed_frame)

lemma add_run_fifo:
  assumes p: "pinned st = {}" and m: "int (length (runs st)) \<le> max_runs st"
    and s: "set (needs_streams st) \<subseteq> set streams"
  shows "pinned (fst (add_run r False streams live st)) = {}"
    and "max_runs (fst (add_run r False streams live st)) = max_runs st"
    and "needs_streams (fst (add_run r False streams live st)) = needs_streams st"
    and "runs (fst (add_run r False streams live st))
          = drop (Suc (length (runs st)) - nat (max_runs st)) (runs st @ [r])"
proof -
  let ?st2 = "st\<lparr>runs := runs st @ [r]\<rparr>"
  let ?res = "fst (add_run r False streams live st)"
  have a: "add_run r False streams live st = add_lines r live ?st2"
    using s by (simp add: add_run_def on_run_added_def)
  have "pinned ?res = {} \<and> max_runs ?res = max_runs st \<and> needs_streams ?res = needs_streams st
      \<and> runs ?res = drop (Suc (length (runs st)) - nat (max_runs st)) (runs st @ [r])"
  proof (cases "int (Suc (length (runs st))) \<le> max_runs st")
    case True
    then have "cull_runs ?st2 = (?st2, None)"
      using p by (simp add: cull_runs_def cull_loop_within)
    then show ?thesis using a True p
      by (simp add: add_lines_def fold_add_line_frame)
  next
    case False
    then have len: "int (length (runs st)) = max_runs st" using m by simp
    have cond: "int (length (runs ?st2)) > max_runs ?st2 + int (card (pinned ?st2))"
      using False p by simp
    have sk: "skip_pinned ?st2 0 = Inr 0"
      using p by (simp add: skip_pinned.simps [of ?st2 0])
    obtain st3 e where pop: "runs_pop 0 ?st2 = (st3, e)" by (cases "runs_pop 0 ?st2")
    have f3: "pinned st3 = {}" "runs st3 = drop (Suc 0) (runs st @ [r])"
      "max_runs st3 = max_runs st" "needs_streams st3 = needs_streams st"
      using runs_pop_unpinned [OF sk pop] runs_pop_frame(1) [of 0 ?st2] pop p by simp_all
    have d: "Suc (length (runs st)) - nat (max_runs st) = Suc 0" using len by simp
    show ?thesis
    proof (cases e)
      case (Some x)
      then have "cull_runs ?st2 = (st3, Some x)"
        using cond sk pop by (simp add: cull_runs_def cull_loop.simps [of 0 ?st2])
      then show ?thesis using a f3 d by (simp add: add_lines_def)
    next
      case None
      have "cull_loop 0 st3 = (st3, None)"
        using f3 len by (intro cull_loop_within) simp
      then have "cull_runs ?st2 = (st3, None)"
        using cond sk pop None by (simp add: cull_runs_def cull_loop.simps [of 0 ?st2])
      then show ?thesis using a f3 d by (simp add: add_lines_def fold_add_line_frame)
    qed
  qed
  then show "pinned ?res = {}" "max_runs ?res = max_runs st"
    "needs_streams ?res = needs_streams st"
    "runs ?res = drop (Suc (length (runs st)) - nat (max_runs st)) (runs st @ [r])"
    by simp_all
qed

lemma fifo_general:
  assumes "pinned st = {}" and "int (length (runs st)) \<le> max_runs st"
    and "\<forall>(r, streams, live) \<in> set rs. set (needs_streams st) \<subseteq> set streams"
  shows "runs (run_ops (add_all rs) st)
      = drop (length (runs st) + length rs - nat (max_runs st)) (runs st @ map fst rs)"
  using assms
proof (induction rs arbitrary: st)
  case Nil
  then show ?case by (simp add: run_ops_def add_all_def)
next
  case (Cons a rs)
  obtain r streams live where a: "a = (r, streams, live)" by (cases a)
  let ?st' = "fst (add_run r False streams live st)"
  have s: "set (needs_streams st) \<subseteq> set streams" using Cons.prems(3) a by simp
  note f = add_run_fifo [OF Cons.prems(1) Cons.prems(2) s, of r live]
  have len': "int (length (runs ?st')) \<le> max_runs ?st'"
    using f(2) f(4) Cons.prems(2) by simp
  have rest: "\<forall>(r, streams, live) \<in> set rs. set (needs_streams ?st') \<subseteq> set streams"
    using Cons.prems(3) f(3) by simp
  have "runs (run_ops (add_all rs) ?st')
      = drop (length (runs ?st') + length rs - nat (max_runs ?st')) (runs ?st' @ map fst rs)"
    using Cons.IH [OF f(1) len' rest] .
  moreover have "run_ops (add_all (a # rs)) st = run_ops (add_all rs) ?st'"
    by (simp add: run_ops_def add_all_def a)
  moreover have "drop (length (runs ?st') + length rs - nat (max_runs ?st')) (runs ?st' @ map fst rs)
      = drop (length (runs st) + length (a # rs) - nat (max_runs st)) (runs st @ map fst (a # rs))"
  proof (cases "int (Suc (length (runs st))) \<le> max_runs st")
    case True
    then have "Suc (length (runs st)) - nat (max_runs st) = 0" by simp
    then show ?thesis using f(2) f(4) a by simp
  next
    case False
    then have len: "int (length (runs st)) = max_runs st" using Cons.prems(2) by simp
    then have d: "Suc (length (runs st)) - nat (max_runs st) = Suc 0" by simp
    have n: "nat (max_runs st) = length (runs st)" using len by simp
    show ?thesis using f(2) f(4) a d n
      by (cases "runs st") (simp_all add: drop_Cons')
  qed
  ultimately show ?case by simp
qed

text \<open>
  Runs that have their streams when they are added, added to a new controller with
  \<open>max_runs \<ge> 0\<close> and none pinned, leave the most recent \<open>max_runs\<close> of them, in the
  order of arrival.
\<close>

lemma fifo_when_streams_available:
  assumes "0 \<le> m" and "\<forall>(r, streams, live) \<in> set rs. set needs \<subseteq> set streams"
  shows "runs (run_ops (add_all rs) (new_RecentLines m x l lm needs))
      = drop (length rs - nat m) (map fst rs)"
  using fifo_general [of "new_RecentLines m x l lm needs" rs] assms
  by (simp add: new_RecentLines_def)

text \<open>
  C6. Adding more than \<open>max_runs\<close> runs, none pinned, is to leave exactly the most
  recent \<open>max_runs\<close> of them. It does not when runs await a stream: with
  \<open>max_runs = 2\<close>, a first run with its stream and two runs without, all three runs
  are tracked.
\<close>

theorem fifo_broken_by_pending_runs:
  "runs (run_ops (add_all [(run1, [''primary''], False), (run2, [], False), (run3, [], False)])
          (controller 2 [''det''])) = [run1, run2, run3]"
  by code_simp

subsection \<open>Deferred activation\<close>

lemma add_run_pending:
  assumes "\<not> set (needs_streams st) \<subseteq> set streams"
  shows "snd (add_run r pin streams live st) = None"
    and "axes_lines (fst (add_run r pin streams live st)) = axes_lines st"
    and "r \<in> new_stream_subs (fst (add_run r pin streams live st))"
    and "runs (fst (add_run r pin streams live st)) = runs st @ [r]"
  using assms by (simp_all add: add_run_def on_run_added_def Let_def)

lemma emit_new_stream_idle:
  "r \<notin> new_stream_subs st \<or> \<not> set (needs_streams st) \<subseteq> set streams \<Longrightarrow>
     emit_new_stream r streams live st = (st, None)"
  by (auto simp: emit_new_stream_def on_new_stream_def)

lemma emit_new_stream_activates:
  assumes sub: "r \<in> new_stream_subs st"
    and s: "set (needs_streams st) \<subseteq> set streams"
    and w: "within_capacity st"
  shows "snd (emit_new_stream r streams live st) = None"
    and "\<exists>new. axes_lines (fst (emit_new_stream r streams live st)) = axes_lines st @ new
           \<and> map line_y new = ys st
           \<and> (\<forall>ln \<in> set new. line_run ln = r \<and> (live \<longrightarrow> color ln = ''black''))"
    and "r \<notin> new_stream_subs (fst (emit_new_stream r streams live st))"
    and "runs (fst (emit_new_stream r streams live st)) = runs st"
proof -
  have c: "cull_runs st = (st, None)"
    using w by (simp add: within_capacity_def cull_runs_def cull_loop_within)
  have e: "emit_new_stream r streams live st
      = ((fold (add_line r live) (ys st) st)
           \<lparr>new_stream_subs := new_stream_subs (fold (add_line r live) (ys st) st) - {r}\<rparr>, None)"
    using sub s c by (simp add: emit_new_stream_def on_new_stream_def add_lines_def)
  show "snd (emit_new_stream r streams live st) = None" using e by simp
  show "\<exists>new. axes_lines (fst (emit_new_stream r streams live st)) = axes_lines st @ new
           \<and> map line_y new = ys st
           \<and> (\<forall>ln \<in> set new. line_run ln = r \<and> (live \<longrightarrow> color ln = ''black''))"
    using fold_add_line_axes [of r live "ys st" st] e by simp
  show "r \<notin> new_stream_subs (fst (emit_new_stream r streams live st))" using e by simp
  show "runs (fst (emit_new_stream r streams live st)) = runs st"
    using e by (simp add: fold_add_line_frame)
qed

text \<open>
  A run added before its streams are there creates no line. In a registry within the
  bound, the first notification that finds the streams there creates one line for each
  y expression and disconnects the handler, so that a later notification changes
  nothing.
\<close>

lemma deferred_activation_within_capacity:
  assumes pend: "\<not> set (needs_streams st) \<subseteq> set streams0"
    and w: "within_capacity (fst (add_run r pin streams0 live0 st))"
    and s: "set (needs_streams st) \<subseteq> set streams"
  shows "axes_lines (fst (add_run r pin streams0 live0 st)) = axes_lines st"
    and "\<exists>new. axes_lines (fst (emit_new_stream r streams live
                  (fst (add_run r pin streams0 live0 st)))) = axes_lines st @ new
           \<and> map line_y new = ys st \<and> (\<forall>ln \<in> set new. line_run ln = r)"
    and "snd (emit_new_stream r streams live (fst (add_run r pin streams0 live0 st))) = None"
    and "emit_new_stream r streams' live'
           (fst (emit_new_stream r streams live (fst (add_run r pin streams0 live0 st))))
         = (fst (emit_new_stream r streams live (fst (add_run r pin streams0 live0 st))), None)"
proof -
  let ?st1 = "fst (add_run r pin streams0 live0 st)"
  have f: "needs_streams ?st1 = needs_streams st" "ys ?st1 = ys st"
    using pend by (simp_all add: add_run_def on_run_added_def Let_def)
  have sub: "r \<in> new_stream_subs ?st1" using add_run_pending(3) [OF pend] .
  have s1: "set (needs_streams ?st1) \<subseteq> set streams" using s f by simp
  note a = emit_new_stream_activates [OF sub s1 w, of live]
  show "axes_lines ?st1 = axes_lines st" using add_run_pending(2) [OF pend] .
  show "\<exists>new. axes_lines (fst (emit_new_stream r streams live ?st1)) = axes_lines st @ new
           \<and> map line_y new = ys st \<and> (\<forall>ln \<in> set new. line_run ln = r)"
    using a(2) add_run_pending(2) [OF pend, of r pin live0] f by auto
  show "snd (emit_new_stream r streams live ?st1) = None" using a(1) .
  show "emit_new_stream r streams' live' (fst (emit_new_stream r streams live ?st1))
         = (fst (emit_new_stream r streams live ?st1), None)"
    using a(3) by (simp add: emit_new_stream_idle)
qed

text \<open>
  C4. The first notification that finds the needed streams there is to create
  \<open>len(ys)\<close> lines and to cancel the subscription. It does not in a registry above
  the bound: with \<open>max_runs = 1\<close> and two runs that await their stream, the notification
  for the first run makes \<^verbatim>\<open>_add_lines\<close> evict that very run, whose uid has no entry
  in \<^verbatim>\<open>_runs_to_lines\<close>; KeyError is raised, no line is created and the handler stays
  connected. The lines of that run, by then no longer tracked, come with the second
  notification.
\<close>

theorem activation_fails_over_capacity:
  "runs (run_ops [AddRun run1 False [] False, AddRun run2 False [] False]
          (controller 1 [''det''])) = [run1, run2]
   \<and> snd (emit_new_stream run1 [''primary''] False
       (run_ops [AddRun run1 False [] False, AddRun run2 False [] False]
          (controller 1 [''det'']))) = Some KeyError
   \<and> axes_lines (fst (emit_new_stream run1 [''primary''] False
       (run_ops [AddRun run1 False [] False, AddRun run2 False [] False]
          (controller 1 [''det''])))) = []
   \<and> run1 \<in> new_stream_subs (fst (emit_new_stream run1 [''primary''] False
       (run_ops [AddRun run1 False [] False, AddRun run2 False [] False]
          (controller 1 [''det'']))))
   \<and> map line_run (axes_lines (run_ops
        [AddRun run1 False [] False, AddRun run2 False [] False,
         NewStream run1 [''primary''] False, NewStream run1 [''primary'', ''baseline''] False]
        (controller 1 [''det'']))) = [run1]"
  by code_simp

text \<open>
  Discarding a tracked run whose uid has no entry in \<^verbatim>\<open>_runs_to_lines\<close> raises KeyError
  after the run has left the registry, and disconnects nothing.
\<close>

lemma discard_without_lines:
  assumes "r \<in> set (runs st)" and "runs_to_lines st (uid r) = None"
  shows "snd (discard_run r st) = Some KeyError"
    and "runs (fst (discard_run r st)) = remove1 r (runs st)"
    and "new_stream_subs (fst (discard_run r st)) = new_stream_subs st"
  using assms by (simp_all add: discard_run_def on_run_removed_def)

text \<open>
  C3. Discarding a run before its stream has arrived is to raise nothing and to cancel the
  subscription, so that a later notification creates nothing. It does neither: for a
  run that never had lines \<^verbatim>\<open>_on_run_removed\<close> raises KeyError, after the run has left
  the registry, and the handler stays connected; the notification that follows creates
  a line for the discarded run.
\<close>

theorem discard_before_activation_fails:
  "snd (discard_run run1 (fst (add_run run1 False [] False (controller 3 [''det'']))))
     = Some KeyError
   \<and> runs (fst (discard_run run1 (fst (add_run run1 False [] False (controller 3 [''det''])))))
     = []
   \<and> run1 \<in> new_stream_subs
       (fst (discard_run run1 (fst (add_run run1 False [] False (controller 3 [''det''])))))
   \<and> map line_run (axes_lines (fst (emit_new_stream run1 [''primary''] False
       (fst (discard_run run1 (fst (add_run run1 False [] False (controller 3 [''det'']))))))))
     = [run1]"
  by code_simp

subsection \<open>Colours on completion\<close>

lemma set_color_uuid: "map uuid (set_color u c ls) = map uuid ls"
  by (induction ls) simp_all

lemma find_set_color:
  "find (\<lambda>l. uuid l = v) (set_color u c ls) =
     (if v = u then map_option (\<lambda>l. l\<lparr>color := c\<rparr>) (find (\<lambda>l. uuid l = u) ls)
      else find (\<lambda>l. uuid l = v) ls)"
  by (induction ls) auto

lemma find_uuid_None: "find (\<lambda>l. uuid l = u) ls = None \<longleftrightarrow> u \<notin> uuid ` set ls"
  by (auto simp: find_None_iff)

lemma next_color_palette: "next_color n \<in> set palette"
proof -
  have "length palette = 10" by (simp add: palette_def)
  then have "n mod 10 < length palette" by simp
  then show ?thesis unfolding next_color_def by (rule nth_mem)
qed

lemma black_not_palette: "''black'' \<notin> set palette"
  by (simp add: palette_def)

lemma recolor_uuid: "map uuid (axes_lines (recolor u st)) = map uuid (axes_lines st)"
  by (simp add: recolor_def set_color_uuid split: option.splits)

lemma recolor_held: "held (recolor u st) v = held st v"
  unfolding held_def using recolor_uuid [of u st] by (metis set_map)

lemma recolor_cycle:
  "color_cycle (recolor u st) = color_cycle st + (if held st u then 1 else 0)"
  by (cases "find (\<lambda>l. uuid l = u) (axes_lines st)")
     (auto simp: recolor_def held_def find_uuid_None [symmetric])

lemma fold_recolor_uuid: "map uuid (axes_lines (fold recolor us st)) = map uuid (axes_lines st)"
  by (induction us arbitrary: st) (simp_all add: recolor_uuid)

lemma fold_recolor_cycle:
  "color_cycle (fold recolor us st) = color_cycle st + length (filter (held st) us)"
proof (induction us arbitrary: st)
  case Nil
  show ?case by simp
next
  case (Cons u us)
  have "filter (held (recolor u st)) us = filter (held st) us"
    by (simp add: recolor_held cong: filter_cong)
  then show ?case using Cons.IH [of "recolor u st"] by (simp add: recolor_cycle)
qed

lemma recolor_colors: "palette_colored (recolor u st) u"
  by (cases "find (\<lambda>l. uuid l = u) (axes_lines st)")
     (simp_all add: recolor_def palette_colored_def find_set_color next_color_palette)

lemma recolor_keeps_colored:
  "palette_colored st v \<Longrightarrow> palette_colored (recolor u st) v"
  by (cases "find (\<lambda>l. uuid l = u) (axes_lines st)"; cases "v = u")
     (auto simp: recolor_def palette_colored_def find_set_color next_color_palette
        split: option.splits)

lemma fold_recolor_keeps_colored:
  "palette_colored st v \<Longrightarrow> palette_colored (fold recolor us st) v"
  by (induction us arbitrary: st) (simp_all add: recolor_keeps_colored)

lemma fold_recolor_colors:
  "v \<in> set us \<Longrightarrow> palette_colored (fold recolor us st) v"
proof (induction us arbitrary: st)
  case Nil
  then show ?case by simp
next
  case (Cons u us)
  show ?case
  proof (cases "v = u")
    case True
    then show ?thesis
      using fold_recolor_keeps_colored [OF recolor_colors [of u st], of us] by simp
  next
    case False
    then show ?thesis using Cons by simp
  qed
qed

lemma fold_recolor_others:
  "l \<in> set (axes_lines st) \<Longrightarrow> uuid l \<notin> set us \<Longrightarrow> l \<in> set (axes_lines (fold recolor us st))"
proof (induction us arbitrary: st)
  case Nil
  then show ?case by simp
next
  case (Cons u us)
  have k: "uuid l \<noteq> u \<Longrightarrow> l \<in> set ls \<Longrightarrow> l \<in> set (set_color u c ls)" for c ls
    by (induction ls) auto
  have "l \<in> set (axes_lines (recolor u st))"
    using Cons.prems k by (auto simp: recolor_def split: option.splits)
  then show ?case using Cons by simp
qed

lemma on_run_complete_fold:
  "on_run_complete r st =
     (fold recolor (indexed st (uid r))
        (st\<lparr>runs_to_lines := (runs_to_lines st)(uid r \<mapsto> indexed st (uid r))\<rparr>), None)"
  by (simp add: on_run_complete_def indexed_def Let_def)

lemma add_lines_live:
  assumes "snd (add_lines r True st) = None"
  shows "\<exists>new. axes_lines (fst (add_lines r True st)) = axes_lines (fst (cull_runs st)) @ new
           \<and> map line_y new = ys st
           \<and> (\<forall>ln \<in> set new. line_run ln = r \<and> color ln = ''black'')"
proof -
  obtain st1 e where c: "cull_runs st = (st1, e)" by (cases "cull_runs st")
  have e: "e = None" using assms c by (cases e) (simp_all add: add_lines_def)
  have y: "ys st1 = ys st" using cull_runs_ys [of st] c by simp
  have "fst (add_lines r True st) = fold (add_line r True) (ys st) st1"
    using c e y by (simp add: add_lines_def)
  then show ?thesis
    using fold_add_line_axes [of r True "ys st" st1] c by simp
qed

lemma add_lines_live_subscribes:
  assumes "snd (add_lines r True st) = None" and "ys st \<noteq> []"
  shows "r \<in> completed_subs (fst (add_lines r True st))"
proof -
  obtain st1 e where c: "cull_runs st = (st1, e)" by (cases "cull_runs st")
  have e: "e = None" using assms(1) c by (cases e) (simp_all add: add_lines_def)
  have y: "ys st1 = ys st" using cull_runs_ys [of st] c by simp
  show ?thesis
    using c e y fold_add_line_completed [of True "ys st" r st1] assms(2)
    by (simp add: add_lines_def)
qed

text \<open>
  C2, as the code has it. The lines that \<^verbatim>\<open>_add_lines\<close> creates for a run that is live
  and not completed are black, one for each y expression, and black is no colour of the
  palette; where there is a y expression the completion handler is then connected, and
  the completion event of the run calls it. The completion handler raises nothing and
  keeps the lines of the axes in place; it gives a colour of the palette to every line
  entered under the uid of the run that the axes still hold, and the cycle advances
  once for each such line: once for a line, not once for the event.
\<close>

theorem completion_recolors_each_line:
  "(snd (add_lines r True st) = None \<longrightarrow>
      (\<exists>new. axes_lines (fst (add_lines r True st)) = axes_lines (fst (cull_runs st)) @ new
         \<and> map line_y new = ys st
         \<and> (\<forall>ln \<in> set new. line_run ln = r \<and> color ln = ''black''))
      \<and> (ys st \<noteq> [] \<longrightarrow> r \<in> completed_subs (fst (add_lines r True st))))
   \<and> ''black'' \<notin> set palette
   \<and> (r \<in> completed_subs st \<longrightarrow> emit_completed r st = on_run_complete r st)
   \<and> snd (on_run_complete r st) = None
   \<and> map uuid (axes_lines (fst (on_run_complete r st))) = map uuid (axes_lines st)
   \<and> (\<forall>u \<in> set (indexed st (uid r)). palette_colored (fst (on_run_complete r st)) u)
   \<and> color_cycle (fst (on_run_complete r st))
       = color_cycle st + length (filter (held st) (indexed st (uid r)))"
proof -
  let ?st1 = "st\<lparr>runs_to_lines := (runs_to_lines st)(uid r \<mapsto> indexed st (uid r))\<rparr>"
  have h: "held ?st1 = held st" by (simp add: held_def fun_eq_iff)
  have "color_cycle (fold recolor (indexed st (uid r)) ?st1)
      = color_cycle st + length (filter (held st) (indexed st (uid r)))"
    using fold_recolor_cycle [of "indexed st (uid r)" ?st1] h by simp
  moreover have "map uuid (axes_lines (fold recolor (indexed st (uid r)) ?st1))
      = map uuid (axes_lines st)"
    using fold_recolor_uuid [of "indexed st (uid r)" ?st1] by simp
  ultimately show ?thesis
    using add_lines_live [of r st] add_lines_live_subscribes [of r st] black_not_palette
      fold_recolor_colors [of _ "indexed st (uid r)" ?st1]
    by (simp add: on_run_complete_fold emit_completed_def)
qed

theorem completion_recolors_each_line_witness:
  "snd (add_lines run1 True (controller 3 [''det'', ''I0''])) = None
   \<and> map color (axes_lines (fst (add_lines run1 True (controller 3 [''det'', ''I0'']))))
       = [''black'', ''black'']
   \<and> run1 \<in> completed_subs (fst (add_lines run1 True (controller 3 [''det'', ''I0''])))
   \<and> indexed (fst (add_lines run1 True (controller 3 [''det'', ''I0'']))) (uid run1) = [0, 1]
   \<and> palette_colored (fst (emit_completed run1
        (fst (add_lines run1 True (controller 3 [''det'', ''I0''])))) ) 0
   \<and> palette_colored (fst (emit_completed run1
        (fst (add_lines run1 True (controller 3 [''det'', ''I0''])))) ) 1
   \<and> color_cycle (fst (emit_completed run1
        (fst (add_lines run1 True (controller 3 [''det'', ''I0''])))))
       = 2"
proof -
  let ?c = "controller 3 [''det'', ''I0'']"
  let ?s = "fst (add_lines run1 True ?c)"
  have a: "snd (add_lines run1 True ?c) = None" by code_simp
  have y: "ys ?c \<noteq> []" by code_simp
  have b: "map color (axes_lines ?s) = [''black'', ''black'']" by code_simp
  have i: "indexed ?s (uid run1) = [0, 1]" by code_simp
  have f: "length (filter (held ?s) (indexed ?s (uid run1))) = 2" by code_simp
  have z: "color_cycle ?s = 0" by code_simp
  have sub: "run1 \<in> completed_subs ?s"
    using completion_recolors_each_line [of run1 ?c] a y by simp
  note t = completion_recolors_each_line [of run1 ?s]
  have e: "emit_completed run1 ?s = on_run_complete run1 ?s" using t sub by simp
  have "palette_colored (fst (on_run_complete run1 ?s)) 0"
    "palette_colored (fst (on_run_complete run1 ?s)) 1"
    using t i by simp_all
  moreover have "color_cycle (fst (on_run_complete run1 ?s)) = 2"
    using t f z by simp
  ultimately show ?thesis using a b i sub e by simp
qed

text \<open>
  C2, as stated, fails: a live run with two y expressions has two black lines, and its
  completion, one event, draws two colours, C0 and C1; the cycle has advanced by two.
\<close>

theorem completion_draws_per_line:
  "map color (axes_lines (fst (add_run run1 False [''primary''] True
        (controller 3 [''det'', ''I0'']))))
     = [''black'', ''black'']
   \<and> color_cycle (fst (add_run run1 False [''primary''] True
        (controller 3 [''det'', ''I0'']))) = 0
   \<and> map color (axes_lines (fst (emit_completed run1 (fst (add_run run1 False [''primary''] True
        (controller 3 [''det'', ''I0''])))))) = [''C0'', ''C1'']
   \<and> color_cycle (fst (emit_completed run1 (fst (add_run run1 False [''primary''] True
        (controller 3 [''det'', ''I0'']))))) = 2
   \<and> color_cycle (fst (emit_completed run1 (fst (add_run run1 False [''primary''] True
        (controller 3 [''det'', ''I0'']))))) \<noteq>
       Suc (color_cycle (fst (add_run run1 False [''primary''] True
        (controller 3 [''det'', ''I0'']))))"
  by code_simp

end
